theory Spec2Isabelle
  imports Main "HOL-Library.Multiset"
begin

section \<open>Python strings\<close>

text \<open>
  A Python \<open>str\<close> is a sequence of Unicode code points, and \<open>len\<close>, indexing, slicing
  and \<open>find\<close> count code points. A string is therefore a list of code points (natural
  numbers), and \<open>lit\<close> turns an ASCII literal of the source into one.
\<close>

type_synonym str = "nat list"

definition lit :: "string \<Rightarrow> str" where
  "lit s = map of_char s"

text \<open>
  \<open>str.isspace\<close> on one code point: the white-space code points of Unicode
  (TAB..CR, FS..US and SPACE, NEL, NBSP, OGHAM SPACE MARK, EN QUAD..HAIR SPACE, the line
  and paragraph separators, NARROW NBSP, MEDIUM MATHEMATICAL SPACE, IDEOGRAPHIC SPACE).
\<close>

definition isspace :: "nat \<Rightarrow> bool" where
  "isspace c =
     ((9 \<le> c \<and> c \<le> 13) \<or> (28 \<le> c \<and> c \<le> 32) \<or> c = 133 \<or> c = 160 \<or> c = 5760
      \<or> (8192 \<le> c \<and> c \<le> 8202) \<or> c = 8232 \<or> c = 8233 \<or> c = 8239 \<or> c = 8287
      \<or> c = 12288)"

text \<open>\<open>s.strip()\<close>: leading and trailing white space removed.\<close>

definition str_strip :: "str \<Rightarrow> str" where
  "str_strip s = rev (dropWhile isspace (rev (dropWhile isspace s)))"

text \<open>\<open>s.startswith(p)\<close>.\<close>

definition str_startswith :: "str \<Rightarrow> str \<Rightarrow> bool" where
  "str_startswith s p = (take (length p) s = p)"

text \<open>
  \<open>s.lower()\<close> applies the lower-case mappings of the Unicode character database, which
  is data of the Python library and not of the program. The functions that call it take
  it as their parameter \<open>lower\<close>, a function from strings to strings; nothing else is
  fixed about it here. What the properties of the host list use of it is \<open>lower_casing\<close>,
  two facts that hold of \<open>str.lower\<close>: lower-casing a lower-cased string changes nothing,
  and a \<open>/\<close>, \<open>?\<close>, \<open>#\<close> or \<open>:\<close> in the result was in the string before (these four
  are their own lower-case mappings, and no other code point is mapped to one of them).
\<close>

definition lower_casing :: "(str \<Rightarrow> str) \<Rightarrow> bool" where
  "lower_casing lower =
     ((\<forall>s. lower (lower s) = lower s)
      \<and> (\<forall>s. \<forall>x\<in>set (lit ''/?#:''). x \<in> set (lower s) \<longrightarrow> x \<in> set s))"

text \<open>
  \<open>s.split(sep)\<close> for a one-character separator: the pieces between the separators, never
  an empty list, so that \<open>s.split(sep)[0]\<close> is \<open>hd (str_split s sep)\<close>.
\<close>

fun str_split :: "str \<Rightarrow> nat \<Rightarrow> str list" where
  "str_split [] sep = [[]]"
| "str_split (c # cs) sep =
     (if c = sep then [] # str_split cs sep
      else (case str_split cs sep of w # ws \<Rightarrow> (c # w) # ws | [] \<Rightarrow> [[c]]))"

text \<open>
  \<open>s.find(sub, start)\<close>: the lowest index from \<open>start\<close> on at which \<open>sub\<close> occurs,
  or \<open>-1\<close>. \<open>find_at\<close> walks the rest of the string, whose first code point has index \<open>i\<close>.
\<close>

fun find_at :: "str \<Rightarrow> str \<Rightarrow> nat \<Rightarrow> int" where
  "find_at [] sub i = (if sub = [] then int i else - 1)"
| "find_at (c # cs) sub i =
     (if str_startswith (c # cs) sub then int i else find_at cs sub (Suc i))"

definition str_find :: "str \<Rightarrow> str \<Rightarrow> nat \<Rightarrow> int" where
  "str_find s sub start = (if start \<le> length s then find_at (drop start s) sub start else - 1)"

text \<open>\<open>s[a:b]\<close> for indices that are not negative.\<close>

definition slice :: "str \<Rightarrow> nat \<Rightarrow> nat \<Rightarrow> str" where
  "slice s a b = take (b - a) (drop a s)"

text \<open>
  \<open>s.replace(old, new)\<close>: every occurrence of \<open>old\<close>, found from the left and without
  overlap, is replaced (with an empty \<open>old\<close>, \<open>new\<close> is put around every code point).
\<close>

fun str_replace :: "str \<Rightarrow> str \<Rightarrow> str \<Rightarrow> str" where
  "str_replace [] old new = (if old = [] then new else [])"
| "str_replace (c # cs) old new =
     (if old = [] then new @ c # str_replace cs old new
      else if str_startswith (c # cs) old
        then new @ str_replace (drop (length old - 1) cs) old new
      else c # str_replace cs old new)"

section \<open>Loading the host list\<close>

text \<open>
  \<open>clean_domain\<close>, statement by statement: strip, drop one leading scheme, drop one
  leading \<open>www.\<close>, cut at the first \<open>/\<close>, \<open>?\<close>, \<open>#\<close> and \<open>:\<close>, lower-case.
\<close>

definition clean_domain :: "(str \<Rightarrow> str) \<Rightarrow> str \<Rightarrow> str" where
  "clean_domain lower domain0 =
     (let domain = str_strip domain0;
          domain = (if str_startswith domain (lit ''http://'') then drop 7 domain
                    else if str_startswith domain (lit ''https://'') then drop 8 domain
                    else domain);
          domain = (if str_startswith domain (lit ''www.'') then drop 4 domain else domain);
          domain = hd (str_split (hd (str_split (hd (str_split domain (of_char CHR ''/'')))
                     (of_char CHR ''?''))) (of_char CHR ''#''));
          domain = (if of_char CHR '':'' \<in> set domain
                    then hd (str_split domain (of_char CHR '':'')) else domain)
      in lower domain)"

text \<open>
  A row of \<open>csv.DictReader\<close> is a dict; \<open>csv_row\<close> is its \<open>items()\<close>, in order, the keys
  distinct. A key is a field name or \<open>None\<close> (the reader's key for cells beyond the
  header); a value is \<open>None\<close> (a cell the row lacks) or the text \<open>str(value)\<close>, which is
  empty exactly when the value is falsy.
\<close>

type_synonym csv_row = "(str option \<times> str option) list"

definition domain_columns :: "str list" where
  "domain_columns =
     [lit ''Domain'', lit ''domain'', lit ''URL'', lit ''url'', lit ''hostname'',
      lit ''Hostname'', lit ''site'', lit ''Site'', lit ''website'', lit ''Website'']"

text \<open>The loop over \<open>domain_columns\<close>: the first recognised column with a non-blank cell.\<close>

fun find_domain_column :: "csv_row \<Rightarrow> str list \<Rightarrow> str option" where
  "find_domain_column row [] = None"
| "find_domain_column row (col # cols) =
     (case map_of row (Some col) of
        Some (Some v) \<Rightarrow>
          if v \<noteq> [] \<and> str_strip v \<noteq> [] then Some (str_strip v)
          else find_domain_column row cols
      | _ \<Rightarrow> find_domain_column row cols)"

text \<open>
  The fallback loop over \<open>row.items()\<close>: the first non-blank cell whose cleaned text has
  a dot and no space ends the loop, appended unless it is in the list already.
\<close>

fun scan_row :: "(str \<Rightarrow> str) \<Rightarrow> csv_row \<Rightarrow> str list \<Rightarrow> str list" where
  "scan_row lower [] domains = domains"
| "scan_row lower ((key, value) # items) domains =
     (case value of
        None \<Rightarrow> scan_row lower items domains
      | Some v \<Rightarrow>
          if v \<noteq> [] \<and> str_strip v \<noteq> [] then
            (let potential_domain = clean_domain lower (str_strip v) in
             if of_char CHR ''.'' \<in> set potential_domain
                \<and> of_char CHR '' '' \<notin> set potential_domain
             then (if potential_domain \<notin> set domains then domains @ [potential_domain]
                   else domains)
             else scan_row lower items domains)
          else scan_row lower items domains)"

text \<open>The loop over the rows, \<open>domains\<close> being the list built so far.\<close>

fun load_rows :: "(str \<Rightarrow> str) \<Rightarrow> csv_row list \<Rightarrow> str list \<Rightarrow> str list" where
  "load_rows lower [] domains = domains"
| "load_rows lower (row # rows) domains =
     (case find_domain_column row domain_columns of
        Some domain \<Rightarrow>
          (let cleaned_domain = clean_domain lower domain in
           if cleaned_domain \<noteq> [] \<and> cleaned_domain \<notin> set domains
           then load_rows lower rows (domains @ [cleaned_domain])
           else load_rows lower rows domains)
      | None \<Rightarrow> load_rows lower rows (scan_row lower row domains))"

text \<open>
  What reading the file comes to: \<open>validate_csv_file\<close> refuses it, the reader finds no
  header, an exception is raised somewhere inside the \<open>try\<close> (reading, or saving the
  cleaned list), or the rows are read. Only the last returns a list that is not empty.
\<close>

datatype csv_file = Rejected | No_Headers | Raised | Rows "csv_row list"

fun load_domains :: "(str \<Rightarrow> str) \<Rightarrow> csv_file \<Rightarrow> str list" where
  "load_domains lower Rejected = []"
| "load_domains lower No_Headers = []"
| "load_domains lower Raised = []"
| "load_domains lower (Rows rows) = load_rows lower rows []"

section \<open>Checking one URL\<close>

text \<open>
  \<open>extract_title\<close>: both searches run on \<open>html.lower()\<close>, the slice is cut from
  \<open>html\<close>.
\<close>

definition extract_title :: "(str \<Rightarrow> str) \<Rightarrow> str \<Rightarrow> str" where
  "extract_title lower html =
     (let start = str_find (lower html) (lit ''<title>'') 0 in
      if start \<noteq> - 1 then
        (let end' = str_find (lower html) (lit ''</title>'') (nat start) in
         if end' \<noteq> - 1 then take 200 (str_strip (slice html (nat (start + 7)) (nat end')))
         else [])
      else [])"

text \<open>
  What \<open>check_url\<close> reads of a \<open>requests\<close> response: the status code, the URL after
  redirects, the decoded body, the number of bytes of the body, and the two headers
  (absent or present).
\<close>

record response =
  resp_status_code :: int
  resp_url :: str
  resp_text :: str
  resp_content_len :: nat
  resp_server :: "str option"
  resp_content_type :: "str option"

text \<open>
  \<open>requests.get\<close> returns a response or raises: \<open>SSLError\<close>, or any other exception
  (DNS failure, connection refused, timeout, malformed response).
\<close>

datatype get_outcome = Response response | SSLError | Other_Exception

text \<open>
  The world outside the program. The network answers a GET depending on the URL and on
  the requests made before it (\<open>http_get\<close>), the clock is read after a request (\<open>now\<close>),
  and \<open>urljoin\<close>, \<open>netloc\<close> and \<open>str_lower\<close> are \<open>urllib.parse.urljoin\<close>,
  \<open>urlparse(...).netloc\<close> and \<open>str.lower\<close>, library functions the program calls.
\<close>

record env =
  http_get :: "str list \<Rightarrow> str \<Rightarrow> get_outcome"
  now :: "str list \<Rightarrow> str"
  urljoin :: "str \<Rightarrow> str \<Rightarrow> str"
  netloc :: "str \<Rightarrow> str"
  str_lower :: "str \<Rightarrow> str"

text \<open>The dict \<open>check_url\<close> returns.\<close>

record probe_result =
  url :: str
  status_code :: int
  final_url :: str
  title :: str
  content_length :: nat
  server :: str
  content_type :: str
  discovery_time :: str
  domain :: str

definition header_or_unknown :: "str option \<Rightarrow> str" where
  "header_or_unknown h = (case h of None \<Rightarrow> lit ''Unknown'' | Some v \<Rightarrow> v)"

text \<open>
  \<open>check_url\<close> takes the requests made so far and returns them extended by its own, next
  to the dict or \<open>None\<close>. On \<open>SSLError\<close> it calls itself on the URL with \<open>https://\<close>
  replaced, when the URL starts with \<open>https://\<close>.
\<close>

function check_url :: "env \<Rightarrow> str \<Rightarrow> str list \<Rightarrow> probe_result option \<times> str list" where
  "check_url E u log =
     (case http_get E log u of
        Response r \<Rightarrow>
          (Some \<lparr> url = u,
                  status_code = resp_status_code r,
                  final_url = resp_url r,
                  title = extract_title (str_lower E) (resp_text r),
                  content_length = resp_content_len r,
                  server = header_or_unknown (resp_server r),
                  content_type = header_or_unknown (resp_content_type r),
                  discovery_time = now E (log @ [u]),
                  domain = netloc E (resp_url r) \<rparr>,
           log @ [u])
      | SSLError \<Rightarrow>
          if str_startswith u (lit ''https://'')
          then check_url E (str_replace u (lit ''https://'') (lit ''http://'')) (log @ [u])
          else (None, log @ [u])
      | Other_Exception \<Rightarrow> (None, log @ [u]))"
  by pat_completeness auto
termination
proof (relation "measure (\<lambda>(E, u, log). if str_startswith u (lit ''https://'') then 1 else 0)")
  show "wf (measure (\<lambda>(E, u, log). if str_startswith u (lit ''https://'') then 1 else (0::nat)))"
    by simp
next
  fix E :: env and u :: str and log :: "str list"
  assume https: "str_startswith u (lit ''https://'')"
  define rest where "rest = drop 8 u"
  have "take (length (lit ''https://'')) u = lit ''https://''"
    using https unfolding str_startswith_def .
  moreover have "length (lit ''https://'') = 8"
    by (simp add: lit_def)
  ultimately have "take 8 u = lit ''https://''"
    by simp
  then have u: "u = lit ''https://'' @ rest"
    unfolding rest_def by (metis append_take_drop_id)
  have "\<not> str_startswith (str_replace u (lit ''https://'') (lit ''http://'')) (lit ''https://'')"
    unfolding u by (simp add: str_startswith_def lit_def)
  with https
  show "((E, str_replace u (lit ''https://'') (lit ''http://''), log @ [u]), (E, u, log))
          \<in> measure (\<lambda>(E, u, log). if str_startswith u (lit ''https://'') then 1 else 0)"
    by simp
qed

declare check_url.simps [simp del]

section \<open>Probing one host\<close>

text \<open>The path list of the constructor, in its order.\<close>

definition paths :: "str list" where
  "paths =
     [lit ''/'', lit ''/index.html'', lit ''/index.php'', lit ''/home'', lit ''/inicio'',
      lit ''/portal'', lit ''/admin'', lit ''/login'', lit ''/acceso'', lit ''/tramites'',
      lit ''/servicios'', lit ''/ciudadano'', lit ''/consulta'', lit ''/noticias'',
      lit ''/prensa'', lit ''/transparencia'', lit ''/estadisticas'', lit ''/contacto'',
      lit ''/acerca'', lit ''/sobre'', lit ''/directorio'', lit ''/enlaces'',
      lit ''/documentos'', lit ''/normativas'', lit ''/leyes'', lit ''/resoluciones'',
      lit ''/downloads'', lit ''/descargas'', lit ''/buscar'', lit ''/search'',
      lit ''/sitemap.xml'', lit ''/robots.txt'', lit ''/api'', lit ''/servicios-web'',
      lit ''/webservices'', lit ''/css/style.css'', lit ''/images'', lit ''/media'',
      lit ''/uploads'', lit ''/files'', lit ''/archivos'']"

text \<open>
  One pass of the inner loop is an attempt: the protocol of the pass, the path, and what
  \<open>check_url\<close> returned for the URL joined from them. The attempts are kept in the state
  next to \<open>found_urls\<close> and the requests sent, so that what was tried, and what was not,
  can be read off the run.
\<close>

record attempt =
  att_protocol :: str
  att_path :: str
  att_result :: "probe_result option"

record probe_state =
  found_urls :: "probe_result list"
  attempts :: "attempt list"
  requests :: "str list"

text \<open>
  The loop over the paths under one protocol. A result below 500 is appended; a 200 under
  https leaves the loop. The pause after an attempt (\<open>time.sleep\<close>) changes no value and
  is left out.
\<close>

fun path_loop :: "env \<Rightarrow> str \<Rightarrow> str \<Rightarrow> str list \<Rightarrow> probe_state \<Rightarrow> probe_state" where
  "path_loop E protocol base_url [] s = s"
| "path_loop E protocol base_url (path # rest) s =
     (let u = urljoin E base_url path;
          (result, log) = check_url E u (requests s);
          s = s \<lparr> attempts := attempts s @
                   [\<lparr> att_protocol = protocol, att_path = path, att_result = result \<rparr>],
                 requests := log \<rparr>
      in case result of
           None \<Rightarrow> path_loop E protocol base_url rest s
         | Some r \<Rightarrow>
             if status_code r < 500 then
               (let s = s \<lparr> found_urls := found_urls s @ [r] \<rparr> in
                if protocol = lit ''https'' \<and> status_code r = 200 then s
                else path_loop E protocol base_url rest s)
             else path_loop E protocol base_url rest s)"

text \<open>
  The loop over the protocols: after the pass of a protocol, a list that is not empty
  leaves the loop when the protocol was https.
\<close>

fun protocol_loop :: "env \<Rightarrow> str \<Rightarrow> str list \<Rightarrow> probe_state \<Rightarrow> probe_state" where
  "protocol_loop E host [] s = s"
| "protocol_loop E host (protocol # rest) s =
     (let base_url = protocol @ lit ''://'' @ host;
          s = path_loop E protocol base_url paths s
      in if found_urls s \<noteq> [] \<and> protocol = lit ''https'' then s
         else protocol_loop E host rest s)"

definition probe_run :: "env \<Rightarrow> str \<Rightarrow> probe_state" where
  "probe_run E host =
     protocol_loop E host [lit ''https'', lit ''http'']
       \<lparr> found_urls = [], attempts = [], requests = [] \<rparr>"

text \<open>\<open>probe_domain\<close> returns \<open>found_urls\<close>.\<close>

definition probe_domain :: "env \<Rightarrow> str \<Rightarrow> probe_result list" where
  "probe_domain E host = found_urls (probe_run E host)"

section \<open>Probing all hosts\<close>

text \<open>
  A future of the executor: the position at which it was submitted, its host, and what
  \<open>future.result()\<close> gives: the list \<open>probe_domain\<close> returned, or the exception the task
  raised (an \<open>Exception\<close>, with its message). What a task comes to is the parameter
  \<open>task\<close>, so every run of the workers is covered.
\<close>

type_synonym future = "nat \<times> str \<times> (str + probe_result list)"

definition submit_all :: "(nat \<Rightarrow> str \<Rightarrow> str + probe_result list) \<Rightarrow> str list \<Rightarrow> future list" where
  "submit_all task domains = map (\<lambda>(i, d). (i, d, task i d)) (enumerate 0 domains)"

record dispatch_state =
  discovered_urls :: "probe_result list"
  printed_errors :: "(str \<times> str) list"

text \<open>
  The loop over the completed futures: a list that is not empty extends
  \<open>discovered_urls\<close>, an exception is printed with the host.
\<close>

fun collect :: "future list \<Rightarrow> dispatch_state \<Rightarrow> dispatch_state" where
  "collect [] s = s"
| "collect ((i, d, Inr results) # futures) s =
     collect futures
       (if results \<noteq> [] then s \<lparr> discovered_urls := discovered_urls s @ results \<rparr> else s)"
| "collect ((i, d, Inl e) # futures) s =
     collect futures (s \<lparr> printed_errors := printed_errors s @ [(d, e)] \<rparr>)"

text \<open>
  \<open>as_completed\<close> hands the submitted futures over in the order in which they finish;
  that order is the parameter \<open>as_completed\<close>, a rearrangement of the list.
\<close>

definition probe_all_domains ::
  "(future list \<Rightarrow> future list) \<Rightarrow> (nat \<Rightarrow> str \<Rightarrow> str + probe_result list) \<Rightarrow> str list
     \<Rightarrow> dispatch_state \<Rightarrow> dispatch_state" where
  "probe_all_domains as_completed task domains s =
     collect (as_completed (submit_all task domains)) s"

section \<open>The summary\<close>

text \<open>Counting one key: \<open>if k not in d: d[k] = 0\<close>, then \<open>d[k] += 1\<close>.\<close>

definition count_key :: "('k \<rightharpoonup> nat) \<Rightarrow> 'k \<Rightarrow> ('k \<rightharpoonup> nat)" where
  "count_key d k =
     (let d = (if d k = None then d(k \<mapsto> 0) else d)
      in case d k of Some n \<Rightarrow> d(k \<mapsto> n + 1) | None \<Rightarrow> d)"

fun count_loop ::
  "probe_result list \<Rightarrow> (str \<rightharpoonup> nat) \<times> (int \<rightharpoonup> nat) \<Rightarrow> (str \<rightharpoonup> nat) \<times> (int \<rightharpoonup> nat)" where
  "count_loop [] acc = acc"
| "count_loop (url_data # rest) (domains_dict, status_summary) =
     count_loop rest
       (count_key domains_dict (domain url_data), count_key status_summary (status_code url_data))"

text \<open>
  \<open>generate_summary_report\<close> returns at once when \<open>discovered_urls\<close> is empty; otherwise
  it builds \<open>domains_dict\<close> and \<open>status_summary\<close>, which it then writes out as the two
  summary files. The result is the pair of dicts, \<open>None\<close> standing for the early return.
\<close>

definition generate_summary_report ::
  "probe_result list \<Rightarrow> ((str \<rightharpoonup> nat) \<times> (int \<rightharpoonup> nat)) option" where
  "generate_summary_report discovered =
     (if discovered = [] then None
      else Some (count_loop discovered (Map.empty, Map.empty)))"

section \<open>Reading a run\<close>

text \<open>
  An attempt is recorded when its result went into \<open>found_urls\<close>, and a hit when its
  result has status 200. \<open>https_pass\<close> is the state after the path loop of the first
  protocol, https.
\<close>

definition recorded :: "attempt \<Rightarrow> bool" where
  "recorded a = (case att_result a of None \<Rightarrow> False | Some r \<Rightarrow> status_code r < 500)"

definition is_hit :: "attempt \<Rightarrow> bool" where
  "is_hit a = (case att_result a of None \<Rightarrow> False | Some r \<Rightarrow> status_code r = 200)"

definition https_pass :: "env \<Rightarrow> str \<Rightarrow> probe_state" where
  "https_pass E host =
     path_loop E (lit ''https'') (lit ''https'' @ lit ''://'' @ host) paths
       \<lparr> found_urls = [], attempts = [], requests = [] \<rparr>"

text \<open>
  What a future contributes: its results, or the line printed for its exception.
\<close>

definition results_of :: "future \<Rightarrow> probe_result list" where
  "results_of f = (case f of (i, d, Inr results) \<Rightarrow> results | (i, d, Inl e) \<Rightarrow> [])"

definition errors_of :: "future \<Rightarrow> (str \<times> str) list" where
  "errors_of f = (case f of (i, d, Inr results) \<Rightarrow> [] | (i, d, Inl e) \<Rightarrow> [(d, e)])"

text \<open>
  What holds of every host string of the loaded list: it is not empty, lower-casing
  leaves it as it is, and it has none of \<open>/\<close>, \<open>?\<close>, \<open>#\<close>, \<open>:\<close>. \<open>from_cell\<close> says that a
  host is the cleaned text of a cell of some row, and \<open>from_domain_column\<close> that this cell
  stands in a recognised column.
\<close>

definition host_ok :: "(str \<Rightarrow> str) \<Rightarrow> str \<Rightarrow> bool" where
  "host_ok lower h =
     (h \<noteq> [] \<and> lower h = h \<and> of_char CHR ''/'' \<notin> set h \<and> of_char CHR ''?'' \<notin> set h
      \<and> of_char CHR ''#'' \<notin> set h \<and> of_char CHR '':'' \<notin> set h)"

definition from_cell :: "(str \<Rightarrow> str) \<Rightarrow> csv_row list \<Rightarrow> str \<Rightarrow> bool" where
  "from_cell lower rows h =
     (\<exists>row\<in>set rows. \<exists>(key, value)\<in>set row.
        case value of None \<Rightarrow> False | Some v \<Rightarrow> h = clean_domain lower (str_strip v))"

definition from_domain_column :: "(str \<Rightarrow> str) \<Rightarrow> csv_row list \<Rightarrow> str \<Rightarrow> bool" where
  "from_domain_column lower rows h =
     (\<exists>row\<in>set rows.
        map_option (clean_domain lower) (find_domain_column row domain_columns) = Some h)"

section \<open>Example worlds\<close>

text \<open>
  The lower-casing of the examples: Python's on the code points the examples are written
  in, which are those up to U+00FF (the ASCII letters and the Latin-1 capitals, U+00D7
  being the multiplication sign) and U+0130, LATIN CAPITAL LETTER I WITH DOT ABOVE, the
  one code point whose lower-case mapping is two code points long (U+0069 U+0307).
\<close>

fun example_lower_cp :: "nat \<Rightarrow> str" where
  "example_lower_cp c =
     (if (65 \<le> c \<and> c \<le> 90) \<or> (192 \<le> c \<and> c \<le> 222 \<and> c \<noteq> 215) then [c + 32]
      else if c = 304 then [105, 775]
      else [c])"

definition example_lower :: "str \<Rightarrow> str" where
  "example_lower s = concat (map example_lower_cp s)"

text \<open>
  A world given by a table from URLs to answers; a URL outside the table fails to
  connect. \<open>urljoin\<close> of a base without a path and a path from the root is their
  concatenation, and \<open>authority\<close> is the text between \<open>//\<close> and the next \<open>/\<close>.
\<close>

definition answer :: "int \<Rightarrow> str \<Rightarrow> get_outcome" where
  "answer code u =
     Response \<lparr> resp_status_code = code, resp_url = u,
                resp_text = lit ''<title> Inicio </title>'', resp_content_len = 23,
                resp_server = None, resp_content_type = Some (lit ''text/html'') \<rparr>"

definition authority :: "str \<Rightarrow> str" where
  "authority u =
     takeWhile (\<lambda>c. c \<noteq> of_char CHR ''/'')
       (drop 2 (dropWhile (\<lambda>c. c \<noteq> of_char CHR ''/'') u))"

definition example_env :: "(str \<times> get_outcome) list \<Rightarrow> env" where
  "example_env answers =
     \<lparr> http_get = (\<lambda>log u. case map_of answers u of None \<Rightarrow> Other_Exception | Some out \<Rightarrow> out),
       now = (\<lambda>log. lit ''2024-01-01 00:00:00''),
       urljoin = (\<lambda>base path. base @ path),
       netloc = authority,
       str_lower = example_lower \<rparr>"

text \<open>A host that answers 503, 404 and 200 on the first three paths over https.\<close>

definition site1 :: env where
  "site1 = example_env
     [(lit ''https://a.cu/'', answer 503 (lit ''https://a.cu/'')),
      (lit ''https://a.cu/index.html'', answer 404 (lit ''https://a.cu/index.html'')),
      (lit ''https://a.cu/index.php'', answer 200 (lit ''https://a.cu/index.php''))]"

text \<open>A host whose page redirects to another host.\<close>

definition site_redirect :: env where
  "site_redirect = example_env
     [(lit ''https://a.cu/'', answer 200 (lit ''https://portal.b.cu/inicio''))]"

text \<open>
  A host whose TLS fails on every https URL and whose pages are served over http, and a
  URL with a second \<open>https://\<close> inside its path on such a host.
\<close>

definition site_tls :: env where
  "site_tls = example_env
     [(lit ''https://a.cu/'', SSLError),
      (lit ''http://a.cu/'', answer 200 (lit ''http://a.cu/'')),
      (lit ''https://a.cu/r/https://b.cu'', SSLError),
      (lit ''http://a.cu/r/http://b.cu'', answer 200 (lit ''http://a.cu/r/http://b.cu''))]"

text \<open>Three hosts, the task of the second raising; the others probe \<open>site1\<close>.\<close>

definition example_task :: "nat \<Rightarrow> str \<Rightarrow> str + probe_result list" where
  "example_task i d = (if d = lit ''b.cu'' then Inl (lit ''boom'') else Inr (probe_domain site1 d))"

definition example_hosts :: "str list" where
  "example_hosts = [lit ''a.cu'', lit ''b.cu'', lit ''c.cu'']"


lemmas run_simps = site1_def site_redirect_def site_tls_def example_env_def answer_def authority_def probe_run_def
  probe_domain_def https_pass_def paths_def check_url.simps Let_def extract_title_def
  example_lower_def str_find_def str_startswith_def str_strip_def slice_def isspace_def
  header_or_unknown_def lit_def

section \<open>Properties of the single-request checker\<close>

text \<open>
  C5. If the GET that \<open>check_url\<close> sends raises an exception other than \<open>SSLError\<close>,
  \<open>check_url\<close> returns \<open>None\<close>, having sent that one request and no other; the exception
  does not reach the caller.
\<close>

theorem check_url_other_exception:
  "http_get E log u = Other_Exception \<Longrightarrow> check_url E u log = (None, log @ [u])"
  by (simp add: check_url.simps)

theorem check_url_other_exception_witness:
  "http_get site1 [] (lit ''https://b.cu/'') = Other_Exception
   \<and> check_url site1 (lit ''https://b.cu/'') [] = (None, [lit ''https://b.cu/''])"
proof -
  have down: "http_get site1 [] (lit ''https://b.cu/'') = Other_Exception"
    by (simp add: site1_def example_env_def lit_def)
  then show ?thesis
    using check_url_other_exception [OF down] by simp
qed

text \<open>
  After a TLS failure on a URL that starts with \<open>https://\<close>, \<open>check_url\<close> sends one more
  request, to the URL with \<open>https://\<close> replaced, and returns what that request gives; a
  second TLS failure ends in \<open>None\<close>, the replaced URL not starting with \<open>https://\<close>.
\<close>

lemma check_url_tls_retry:
  assumes "http_get E log u = SSLError" "str_startswith u (lit ''https://'')"
  shows "check_url E u log =
     (let u' = str_replace u (lit ''https://'') (lit ''http://'') in
      case http_get E (log @ [u]) u' of
        Response r \<Rightarrow>
          (Some \<lparr> url = u', status_code = resp_status_code r, final_url = resp_url r,
                  title = extract_title (str_lower E) (resp_text r), content_length = resp_content_len r,
                  server = header_or_unknown (resp_server r),
                  content_type = header_or_unknown (resp_content_type r),
                  discovery_time = now E (log @ [u, u']),
                  domain = netloc E (resp_url r) \<rparr>,
           log @ [u, u'])
      | _ \<Rightarrow> (None, log @ [u, u']))"
proof -
  define u' where "u' = str_replace u (lit ''https://'') (lit ''http://'')"
  have "take (length (lit ''https://'')) u = lit ''https://''"
    using assms(2) unfolding str_startswith_def .
  moreover have "length (lit ''https://'') = 8"
    by (simp add: lit_def)
  ultimately have "take 8 u = lit ''https://''"
    by simp
  then have u: "u = lit ''https://'' @ drop 8 u"
    by (metis append_take_drop_id)
  have "\<not> str_startswith u' (lit ''https://'')"
    unfolding u'_def by (subst u) (simp add: str_startswith_def lit_def)
  then have "check_url E u' (log @ [u]) =
      (case http_get E (log @ [u]) u' of
        Response r \<Rightarrow>
          (Some \<lparr> url = u', status_code = resp_status_code r, final_url = resp_url r,
                  title = extract_title (str_lower E) (resp_text r), content_length = resp_content_len r,
                  server = header_or_unknown (resp_server r),
                  content_type = header_or_unknown (resp_content_type r),
                  discovery_time = now E (log @ [u, u']),
                  domain = netloc E (resp_url r) \<rparr>,
           log @ [u, u'])
      | _ \<Rightarrow> (None, log @ [u, u']))"
    by (subst check_url.simps) (simp split: get_outcome.split)
  moreover have "check_url E u log = check_url E u' (log @ [u])"
    using assms by (subst check_url.simps) (simp add: u'_def)
  ultimately show ?thesis
    unfolding Let_def u'_def [symmetric] by (rule trans [rotated])
qed

lemma str_replace_absent:
  "\<forall>n. \<not> str_startswith (drop n s) old \<Longrightarrow> old \<noteq> [] \<Longrightarrow> str_replace s old new = s"
proof (induction s)
  case Nil
  then show ?case by simp
next
  case (Cons c s)
  have "\<not> str_startswith (c # s) old"
    using Cons.prems(1)[rule_format, of 0] by simp
  moreover have "\<forall>n. \<not> str_startswith (drop n s) old"
  proof
    fix n show "\<not> str_startswith (drop n s) old"
      using Cons.prems(1)[rule_format, of "Suc n"] by simp
  qed
  ultimately show ?case
    using Cons by simp
qed

lemma str_replace_scheme:
  assumes "\<forall>n. \<not> str_startswith (drop n rest) (lit ''https://'')"
  shows "str_replace (lit ''https://'' @ rest) (lit ''https://'') (lit ''http://'') = lit ''http://'' @ rest"
proof -
  have "str_replace rest (lit ''https://'') (lit ''http://'') = rest"
    using assms by (rule str_replace_absent) (simp add: lit_def)
  moreover have "str_replace (lit ''https://'' @ rest) (lit ''https://'') (lit ''http://'')
      = lit ''http://'' @ str_replace rest (lit ''https://'') (lit ''http://'')"
    by (simp add: lit_def str_startswith_def)
  ultimately show ?thesis by simp
qed

lemma str_startswith_set: "str_startswith t p \<Longrightarrow> set p \<subseteq> set t"
  unfolding str_startswith_def by (metis set_take_subset)

lemma no_colon_no_https:
  assumes "of_char CHR '':'' \<notin> set x"
  shows "\<forall>n. \<not> str_startswith (drop n x) (lit ''https://'')"
proof
  fix n
  have "of_char CHR '':'' \<in> set (lit ''https://'')"
    by (simp add: lit_def)
  moreover have "set (drop n x) \<subseteq> set x"
    by (rule set_drop_subset)
  ultimately show "\<not> str_startswith (drop n x) (lit ''https://'')"
    using assms str_startswith_set by blast
qed

lemma paths_no_colon: "\<forall>p\<in>set paths. of_char CHR '':'' \<notin> set p"
  by (simp add: paths_def lit_def)

text \<open>
  C4. The URLs \<open>check_url\<close> is given are \<open>https://\<close> followed by a host and a path of the
  list, and \<open>https://\<close> does not stand in them a second time (a loaded host and the paths
  hold no \<open>:\<close>). For every such URL whose request fails on TLS, \<open>check_url\<close> sends
  exactly one more request, to the same host and path under \<open>http://\<close>, and returns what
  that request gives: on a response the one result, carrying the http URL; otherwise
  \<open>None\<close>, also after a second TLS failure, without a further request.
\<close>

theorem check_url_tls_retry_once:
  assumes "http_get E log (lit ''https://'' @ rest) = SSLError"
    and "\<forall>n. \<not> str_startswith (drop n rest) (lit ''https://'')"
  shows "check_url E (lit ''https://'' @ rest) log =
     (case http_get E (log @ [lit ''https://'' @ rest]) (lit ''http://'' @ rest) of
        Response r \<Rightarrow>
          (Some \<lparr> url = lit ''http://'' @ rest, status_code = resp_status_code r,
                  final_url = resp_url r,
                  title = extract_title (str_lower E) (resp_text r),
                  content_length = resp_content_len r,
                  server = header_or_unknown (resp_server r),
                  content_type = header_or_unknown (resp_content_type r),
                  discovery_time = now E (log @ [lit ''https://'' @ rest, lit ''http://'' @ rest]),
                  domain = netloc E (resp_url r) \<rparr>,
           log @ [lit ''https://'' @ rest, lit ''http://'' @ rest])
      | SSLError \<Rightarrow> (None, log @ [lit ''https://'' @ rest, lit ''http://'' @ rest])
      | Other_Exception \<Rightarrow> (None, log @ [lit ''https://'' @ rest, lit ''http://'' @ rest]))
   \<and> (\<forall>h p. of_char CHR '':'' \<notin> set h \<and> p \<in> set paths
          \<longrightarrow> (\<forall>n. \<not> str_startswith (drop n (h @ p)) (lit ''https://'')))"
proof -
  have starts: "str_startswith (lit ''https://'' @ rest) (lit ''https://'')"
    by (simp add: str_startswith_def)
  have rewrite: "str_replace (lit ''https://'' @ rest) (lit ''https://'') (lit ''http://'')
                   = lit ''http://'' @ rest"
    using assms(2) by (rule str_replace_scheme)
  have retry: "check_url E (lit ''https://'' @ rest) log =
     (case http_get E (log @ [lit ''https://'' @ rest]) (lit ''http://'' @ rest) of
        Response r \<Rightarrow>
          (Some \<lparr> url = lit ''http://'' @ rest, status_code = resp_status_code r,
                  final_url = resp_url r,
                  title = extract_title (str_lower E) (resp_text r),
                  content_length = resp_content_len r,
                  server = header_or_unknown (resp_server r),
                  content_type = header_or_unknown (resp_content_type r),
                  discovery_time = now E (log @ [lit ''https://'' @ rest, lit ''http://'' @ rest]),
                  domain = netloc E (resp_url r) \<rparr>,
           log @ [lit ''https://'' @ rest, lit ''http://'' @ rest])
      | SSLError \<Rightarrow> (None, log @ [lit ''https://'' @ rest, lit ''http://'' @ rest])
      | Other_Exception \<Rightarrow> (None, log @ [lit ''https://'' @ rest, lit ''http://'' @ rest]))"
    unfolding check_url_tls_retry [OF assms(1) starts] Let_def rewrite
    by (simp split: get_outcome.split)
  have "\<forall>n. \<not> str_startswith (drop n (h @ p)) (lit ''https://'')"
    if "of_char CHR '':'' \<notin> set h" "p \<in> set paths" for h p
    using that paths_no_colon by (intro no_colon_no_https) auto
  then show ?thesis
    using retry by blast
qed

theorem check_url_tls_retry_once_witness:
  "http_get site_tls [] (lit ''https://'' @ lit ''a.cu/'') = SSLError
   \<and> (\<forall>n. \<not> str_startswith (drop n (lit ''a.cu/'')) (lit ''https://''))
   \<and> map_option url (fst (check_url site_tls (lit ''https://'' @ lit ''a.cu/'') []))
       = Some (lit ''http://'' @ lit ''a.cu/'')
   \<and> snd (check_url site_tls (lit ''https://'' @ lit ''a.cu/'') [])
       = [lit ''https://'' @ lit ''a.cu/'', lit ''http://'' @ lit ''a.cu/'']"
proof -
  have tls: "http_get site_tls [] (lit ''https://'' @ lit ''a.cu/'') = SSLError"
    by (simp add: site_tls_def example_env_def lit_def)
  have once: "\<forall>n. \<not> str_startswith (drop n (lit ''a.cu/'')) (lit ''https://'')"
    by (rule no_colon_no_https) (simp add: lit_def)
  have answer: "http_get site_tls ([] @ [lit ''https://'' @ lit ''a.cu/'']) (lit ''http://'' @ lit ''a.cu/'')
                  = answer 200 (lit ''http://a.cu/'')"
    by (simp add: site_tls_def example_env_def lit_def)
  show ?thesis
    using tls once check_url_tls_retry_once [OF tls once]
    unfolding answer by (simp add: answer_def)
qed

text \<open>
  A URL with \<open>https://\<close> inside its path is not one the prober builds; given to
  \<open>check_url\<close> by itself, it is retried with both occurrences replaced.
\<close>

lemma check_url_rewrites_every_https:
  "map_option url (fst (check_url site_tls (lit ''https://a.cu/r/https://b.cu'') []))
     = Some (lit ''http://a.cu/r/http://b.cu'')
   \<and> snd (check_url site_tls (lit ''https://a.cu/r/https://b.cu'') [])
     = [lit ''https://a.cu/r/https://b.cu'', lit ''http://a.cu/r/http://b.cu'']"
  by (simp add: run_simps)

text \<open>
  What \<open>extract_title\<close> returns is cut from \<open>html\<close> at the places where the tags stand in
  \<open>html.lower()\<close>, and is at most 200 code points long. Where lower-casing keeps the
  text before the closing tag as long as it was, the result is the stripped text between
  the first \<open><title>\<close> and the next \<open></title>\<close>, whatever their case.
\<close>

lemma find_at_first:
  "(\<forall>j<k. \<not> str_startswith (drop j t) sub) \<Longrightarrow> str_startswith (drop k t) sub \<Longrightarrow> k \<le> length t
   \<Longrightarrow> find_at t sub i = int (i + k)"
proof (induction t arbitrary: i k)
  case Nil
  then show ?case by (simp add: str_startswith_def)
next
  case (Cons c cs)
  show ?case
  proof (cases k)
    case 0
    then show ?thesis using Cons.prems by simp
  next
    case (Suc k')
    have no: "\<not> str_startswith (c # cs) sub"
      using Cons.prems(1)[rule_format, of 0] Suc by simp
    have "\<forall>j<k'. \<not> str_startswith (drop j cs) sub"
    proof (intro allI impI)
      fix j assume "j < k'"
      then show "\<not> str_startswith (drop j cs) sub"
        using Cons.prems(1)[rule_format, of "Suc j"] Suc by simp
    qed
    then have "find_at cs sub (Suc i) = int (Suc i + k')"
      using Cons.prems(2,3) Suc by (intro Cons.IH) simp_all
    then show ?thesis
      using no Suc by simp
  qed
qed

lemma find_at_none:
  "(\<forall>j\<le>length t. \<not> str_startswith (drop j t) sub) \<Longrightarrow> find_at t sub i = - 1"
proof (induction t arbitrary: i)
  case Nil
  then show ?case by (auto simp: str_startswith_def)
next
  case (Cons c cs)
  have no: "\<not> str_startswith (c # cs) sub"
    using Cons.prems[rule_format, of 0] by simp
  have "\<forall>j\<le>length cs. \<not> str_startswith (drop j cs) sub"
  proof (intro allI impI)
    fix j assume "j \<le> length cs"
    then show "\<not> str_startswith (drop j cs) sub"
      using Cons.prems[rule_format, of "Suc j"] by simp
  qed
  then show ?case
    using no Cons.IH by simp
qed


lemma open_tag_no_close:
  "j < 7 \<Longrightarrow> \<not> str_startswith (drop j (lit ''<title>'' @ rest)) (lit ''</title>'')"
proof -
  assume "j < 7"
  then have "j = 0 \<or> j = 1 \<or> j = 2 \<or> j = 3 \<or> j = 4 \<or> j = 5 \<or> j = 6"
    by arith
  then show ?thesis
    by (elim disjE) (simp_all add: str_startswith_def lit_def)
qed

lemma extract_title_found:
  assumes L: "lower html = pre @ lit ''<title>'' @ mid @ lit ''</title>'' @ post"
    and first_open: "\<forall>j<length pre. \<not> str_startswith (drop j (lower html)) (lit ''<title>'')"
    and first_close: "\<forall>j<length mid. \<not> str_startswith (drop j (mid @ lit ''</title>'' @ post)) (lit ''</title>'')"
  shows "extract_title lower html
           = take 200 (str_strip (slice html (length pre + 7) (length pre + 7 + length mid)))"
proof -
  let ?L = "lower html"
  have len7: "length (lit ''<title>'') = 7"
    by (simp add: lit_def)
  have "str_startswith (drop (length pre) ?L) (lit ''<title>'')"
    by (simp add: L str_startswith_def)
  then have "find_at ?L (lit ''<title>'') 0 = int (0 + length pre)"
    using first_open by (intro find_at_first) (simp_all add: L)
  then have start: "str_find ?L (lit ''<title>'') 0 = int (length pre)"
    by (simp add: str_find_def)
  let ?R = "lit ''<title>'' @ mid @ lit ''</title>'' @ post"
  have dropL: "drop (length pre) ?L = ?R"
    by (simp add: L)
  have "\<not> str_startswith (drop j ?R) (lit ''</title>'')" if "j < 7 + length mid" for j
  proof (cases "j < 7")
    case True
    then show ?thesis by (rule open_tag_no_close)
  next
    case False
    then have "drop j ?R = drop (j - 7) (mid @ lit ''</title>'' @ post)"
      by (simp add: len7)
    moreover have "j - 7 < length mid"
      using that False by simp
    ultimately show ?thesis
      using first_close by simp
  qed
  moreover have "str_startswith (drop (7 + length mid) ?R) (lit ''</title>'')"
    by (simp add: len7 str_startswith_def)
  ultimately have "find_at ?R (lit ''</title>'') (length pre) = int (length pre + (7 + length mid))"
    by (intro find_at_first) (simp_all add: len7)
  then have stop: "str_find ?L (lit ''</title>'') (length pre) = int (length pre + 7 + length mid)"
    by (simp add: str_find_def dropL L add.assoc)
  show ?thesis
    by (simp add: extract_title_def Let_def start stop nat_add_distrib)
qed

lemma extract_title_no_open:
  assumes "\<forall>j\<le>length (lower html). \<not> str_startswith (drop j (lower html)) (lit ''<title>'')"
  shows "extract_title lower html = []"
proof -
  have "find_at (lower html) (lit ''<title>'') 0 = - 1"
    using assms by (rule find_at_none)
  then show ?thesis
    by (simp add: extract_title_def str_find_def)
qed

lemma length_extract_title: "length (extract_title lower html) \<le> 200"
  by (simp add: extract_title_def Let_def)

lemma extract_title_correct:
  assumes html: "html = pre @ opening @ mid @ closing @ post"
    and L: "lower html = pre' @ lit ''<title>'' @ mid' @ lit ''</title>'' @ post'"
    and same: "length pre' = length pre" "length opening = 7" "length mid' = length mid"
    and first_open: "\<forall>j<length pre. \<not> str_startswith (drop j (lower html)) (lit ''<title>'')"
    and first_close:
      "\<forall>j<length mid. \<not> str_startswith (drop j (mid' @ lit ''</title>'' @ post')) (lit ''</title>'')"
  shows "extract_title lower html = take 200 (str_strip mid)"
proof -
  have "extract_title lower html
          = take 200 (str_strip (slice html (length pre' + 7) (length pre' + 7 + length mid')))"
    using L first_open first_close by (intro extract_title_found) (simp_all add: same)
  moreover have "slice html (length pre + 7) (length pre + 7 + length mid) = mid"
    by (simp add: slice_def html same)
  ultimately show ?thesis
    by (simp add: same)
qed

text \<open>
  C8. The indices \<open>extract_title\<close> finds in \<open>html.lower()\<close> are used on \<open>html\<close>. Lower-casing
  U+0130 gives two code points, so behind one the indices are one too far to the right:
  for the body U+0130 followed by \<open><title>abc</title>\<close> the result is \<open>bc<\<close>, where the
  text between the tags is \<open>abc\<close> (as returned without the U+0130). The body is
  lower-cased as Python does it: U+0130 to U+0069 U+0307, the ASCII text to itself.
\<close>

theorem extract_title_shifted:
  "extract_title example_lower (304 # lit ''<title>abc</title>'') = lit ''bc<''
   \<and> extract_title example_lower (lit ''<title>abc</title>'') = lit ''abc''
   \<and> example_lower (304 # lit ''<title>abc</title>'') = 105 # 775 # lit ''<title>abc</title>''"
  by (simp add: run_simps)

section \<open>Properties of the host prober\<close>

lemma path_loop_below_500:
  "(\<forall>r\<in>set (found_urls s). status_code r < 500) \<Longrightarrow>
   (\<forall>r\<in>set (found_urls (path_loop E protocol base_url ps s)). status_code r < 500)"
proof (induction ps arbitrary: s)
  case Nil
  then show ?case by simp
next
  case (Cons p ps)
  obtain result log where c: "check_url E (urljoin E base_url p) (requests s) = (result, log)"
    by force
  show ?case
    using Cons.prems c
    by (auto simp: Let_def split: option.splits intro!: Cons.IH)
qed

lemma protocol_loop_below_500:
  "(\<forall>r\<in>set (found_urls s). status_code r < 500) \<Longrightarrow>
   (\<forall>r\<in>set (found_urls (protocol_loop E host protos s)). status_code r < 500)"
proof (induction protos arbitrary: s)
  case Nil
  then show ?case by simp
next
  case (Cons p ps)
  have "\<forall>r\<in>set (found_urls (path_loop E p (p @ lit ''://'' @ host) paths s)). status_code r < 500"
    using Cons.prems by (rule path_loop_below_500)
  then show ?case
    using Cons.IH by (simp add: Let_def)
qed

text \<open>
  C1. Whatever the world answers, every element of the list \<open>probe_domain\<close> returns for a
  host has a status code below 500: a result of \<open>check_url\<close> with status 500 or more is
  not appended.
\<close>

theorem probe_domain_below_500:
  "\<forall>r\<in>set (probe_domain E host). status_code r < 500"
  unfolding probe_domain_def probe_run_def
  by (rule protocol_loop_below_500) simp

theorem probe_domain_below_500_witness:
  "map status_code (probe_domain site1 (lit ''a.cu'')) = [404, 200]
   \<and> status_code (probe_domain site1 (lit ''a.cu'') ! 0) < 500
   \<and> status_code (probe_domain site1 (lit ''a.cu'') ! 1) < 500"
proof -
  have run: "map status_code (probe_domain site1 (lit ''a.cu'')) = [404, 200]"
    by (simp add: run_simps)
  then have "length (probe_domain site1 (lit ''a.cu'')) = 2"
    by (metis length_map length_Cons list.size(3) numeral_2_eq_2)
  then have "probe_domain site1 (lit ''a.cu'') ! 0 \<in> set (probe_domain site1 (lit ''a.cu''))"
    and "probe_domain site1 (lit ''a.cu'') ! 1 \<in> set (probe_domain site1 (lit ''a.cu''))"
    by simp_all
  then show ?thesis
    using run probe_domain_below_500 [of site1 "lit ''a.cu''"] by blast
qed

lemma path_loop_step:
  assumes "check_url E (urljoin E base_url p) (requests s) = (result, log)"
  shows "path_loop E protocol base_url (p # ps) s =
     (let s1 = s \<lparr> attempts := attempts s @
                   [\<lparr> att_protocol = protocol, att_path = p, att_result = result \<rparr>],
                 requests := log \<rparr>
      in case result of
           None \<Rightarrow> path_loop E protocol base_url ps s1
         | Some r \<Rightarrow>
             if status_code r < 500 then
               (if protocol = lit ''https'' \<and> status_code r = 200
                then s1 \<lparr> found_urls := found_urls s1 @ [r] \<rparr>
                else path_loop E protocol base_url ps (s1 \<lparr> found_urls := found_urls s1 @ [r] \<rparr>))
             else path_loop E protocol base_url ps s1)"
  using assms by (simp add: Let_def split: option.split)

lemma path_loop_trace:
  "\<exists>new. attempts (path_loop E protocol base_url ps s) = attempts s @ new
     \<and> (\<forall>a\<in>set new. att_protocol a = protocol)
     \<and> map att_path new = take (length new) ps
     \<and> (protocol = lit ''https'' \<longrightarrow> (\<forall>a\<in>set (butlast new). \<not> is_hit a))
     \<and> (found_urls (path_loop E protocol base_url ps s) = found_urls s \<longrightarrow> (\<forall>a\<in>set new. \<not> recorded a))
     \<and> length (found_urls s) \<le> length (found_urls (path_loop E protocol base_url ps s))"
proof (induction ps arbitrary: s)
  case Nil
  show ?case by simp
next
  case (Cons p ps)
  obtain result log where c: "check_url E (urljoin E base_url p) (requests s) = (result, log)"
    by force
  define a where "a = \<lparr> att_protocol = protocol, att_path = p, att_result = result \<rparr>"
  define s1 where "s1 = s \<lparr> attempts := attempts s @ [a], requests := log \<rparr>"
  define s2 where "s2 = (case result of None \<Rightarrow> s1 | Some r \<Rightarrow>
                           if status_code r < 500 then s1 \<lparr> found_urls := found_urls s1 @ [r] \<rparr> else s1)"
  have a2: "attempts s2 = attempts s @ [a]"
    by (simp add: s2_def s1_def split: option.splits)
  have f2: "found_urls s2 = (if recorded a then found_urls s @ [the result] else found_urls s)"
    by (auto simp: s2_def s1_def recorded_def a_def split: option.splits)
  show ?case
  proof (cases "protocol = lit ''https'' \<and> is_hit a")
    case True
    then have "path_loop E protocol base_url (p # ps) s = s2"
      using c by (auto simp: path_loop_step Let_def s2_def s1_def a_def is_hit_def split: option.splits)
    moreover have "recorded a"
      using True by (auto simp: recorded_def is_hit_def split: option.splits)
    ultimately show ?thesis
      using a2 f2 by (intro exI[of _ "[a]"]) (simp add: a_def)
  next
    case False
    then have step: "path_loop E protocol base_url (p # ps) s = path_loop E protocol base_url ps s2"
      using c by (auto simp: path_loop_step Let_def s2_def s1_def a_def is_hit_def split: option.splits)
    from Cons.IH[of s2] obtain new where
      n1: "attempts (path_loop E protocol base_url ps s2) = attempts s2 @ new"
      and n2: "\<forall>a\<in>set new. att_protocol a = protocol"
      and n3: "map att_path new = take (length new) ps"
      and n4: "protocol = lit ''https'' \<longrightarrow> (\<forall>a\<in>set (butlast new). \<not> is_hit a)"
      and n5: "found_urls (path_loop E protocol base_url ps s2) = found_urls s2 \<longrightarrow> (\<forall>a\<in>set new. \<not> recorded a)"
      and n6: "length (found_urls s2) \<le> length (found_urls (path_loop E protocol base_url ps s2))"
      by blast
    have len: "length (found_urls s) \<le> length (found_urls s2)"
      by (simp add: f2)
    have "attempts (path_loop E protocol base_url (p # ps) s) = attempts s @ (a # new)"
      by (simp add: step n1 a2 del: path_loop.simps)
    moreover have "\<forall>b\<in>set (a # new). att_protocol b = protocol"
      using n2 by (simp add: a_def)
    moreover have "map att_path (a # new) = take (length (a # new)) (p # ps)"
      using n3 by (simp add: a_def)
    moreover have "protocol = lit ''https'' \<longrightarrow> (\<forall>b\<in>set (butlast (a # new)). \<not> is_hit b)"
      using n4 False by auto
    moreover have "found_urls (path_loop E protocol base_url (p # ps) s) = found_urls s
                     \<longrightarrow> (\<forall>b\<in>set (a # new). \<not> recorded b)"
    proof
      assume eq: "found_urls (path_loop E protocol base_url (p # ps) s) = found_urls s"
      with n6 len have "length (found_urls s2) = length (found_urls s)"
        by (simp add: step del: path_loop.simps)
      then have nr: "\<not> recorded a" and same: "found_urls s2 = found_urls s"
        by (auto simp: f2 split: if_splits)
      with eq n5 show "\<forall>b\<in>set (a # new). \<not> recorded b"
        by (simp add: step del: path_loop.simps)
    qed
    moreover have "length (found_urls s) \<le> length (found_urls (path_loop E protocol base_url (p # ps) s))"
      using n6 len by (simp add: step del: path_loop.simps)
    ultimately show ?thesis
      by blast
  qed
qed


lemma http_neq_https: "lit ''http'' \<noteq> lit ''https''"
  by (simp add: lit_def)

lemma probe_run_unfold:
  "probe_run E host =
     (if found_urls (https_pass E host) \<noteq> [] then https_pass E host
      else path_loop E (lit ''http'') (lit ''http'' @ lit ''://'' @ host) paths (https_pass E host))"
  by (simp add: probe_run_def https_pass_def Let_def http_neq_https)

lemma https_pass_trace:
  "(\<forall>a\<in>set (attempts (https_pass E host)). att_protocol a = lit ''https'')
   \<and> map att_path (attempts (https_pass E host)) = take (length (attempts (https_pass E host))) paths
   \<and> (\<forall>a\<in>set (butlast (attempts (https_pass E host))). \<not> is_hit a)
   \<and> (found_urls (https_pass E host) = [] \<longrightarrow> (\<forall>a\<in>set (attempts (https_pass E host)). \<not> recorded a))"
  using path_loop_trace[of E "lit ''https''" "lit ''https'' @ lit ''://'' @ host" paths
      "\<lparr> found_urls = [], attempts = [], requests = [] \<rparr>"]
  unfolding https_pass_def by auto






text \<open>
  C2. If an attempt of the run was made under https, on path \<open>att_path a\<close>, and its
  result has status exactly 200, then it is the last attempt of the run: nothing comes
  after it, so no later path is tried under https and the http pass is not started.
  Every attempt before it was made under https, and the paths tried are the path list up
  to and including that path, in order.
\<close>

theorem probe_domain_early_exit:
  assumes tr: "attempts (probe_run E host) = pre @ a # post"
    and a: "att_protocol a = lit ''https''" "att_result a = Some r" "status_code r = 200"
  shows "post = []
         \<and> (\<forall>b\<in>set pre. att_protocol b = lit ''https'')
         \<and> map att_path (pre @ [a]) = take (Suc (length pre)) paths"
proof -
  have hit: "is_hit a" and rec: "recorded a"
    using a by (simp_all add: is_hit_def recorded_def)
  note t = https_pass_trace[of E host]
  have found: "found_urls (https_pass E host) \<noteq> []"
  proof
    assume empty: "found_urls (https_pass E host) = []"
    then have none: "\<forall>b\<in>set (attempts (https_pass E host)). \<not> recorded b"
      using t by blast
    obtain new where
      n1: "attempts (probe_run E host) = attempts (https_pass E host) @ new"
      and n2: "\<forall>b\<in>set new. att_protocol b = lit ''http''"
      using path_loop_trace[of E "lit ''http''" "lit ''http'' @ lit ''://'' @ host" paths "https_pass E host"]
        empty by (auto simp: probe_run_unfold)
    have "a \<in> set (attempts (probe_run E host))"
      by (simp add: tr)
    then have "a \<in> set (attempts (https_pass E host)) \<or> a \<in> set new"
      by (simp add: n1)
    then show False
      using none rec n2 a(1) http_neq_https by auto
  qed
  then have run: "attempts (https_pass E host) = pre @ a # post"
    using tr by (simp add: probe_run_unfold)
  have "post = []"
  proof (rule ccontr)
    assume "post \<noteq> []"
    then have "butlast (pre @ a # post) = pre @ a # butlast post"
      by (simp add: butlast_append)
    then have "a \<in> set (butlast (attempts (https_pass E host)))"
      by (simp add: run)
    then show False
      using t hit by blast
  qed
  moreover have "\<forall>b\<in>set pre. att_protocol b = lit ''https''"
    using t run by simp
  moreover have "map att_path (pre @ [a]) = take (Suc (length pre)) paths"
    using t run \<open>post = []\<close> by simp
  ultimately show ?thesis
    by blast
qed

theorem probe_domain_early_exit_witness:
  "map att_path (attempts (probe_run site1 (lit ''a.cu''))) = take 3 paths
   \<and> map (map_option status_code \<circ> att_result) (attempts (probe_run site1 (lit ''a.cu'')))
       = [Some 503, Some 404, Some 200]"
proof -
  let ?tr = "attempts (probe_run site1 (lit ''a.cu''))"
  have codes: "map (map_option status_code \<circ> att_result) ?tr = [Some 503, Some 404, Some 200]"
    by (simp add: run_simps)
  have protos: "map att_protocol ?tr = [lit ''https'', lit ''https'', lit ''https'']"
    by (simp add: run_simps)
  from codes obtain a0 a1 a2 where tr: "?tr = [a0, a1] @ a2 # []"
    by auto
  obtain r where r: "att_result a2 = Some r" "status_code r = 200"
    using codes tr by auto
  have "att_protocol a2 = lit ''https''"
    using protos tr by simp
  from probe_domain_early_exit [OF tr this r]
  have "map att_path ([a0, a1] @ [a2]) = take (Suc (length [a0, a1])) paths"
    by blast
  then have "map att_path ?tr = take 3 paths"
    using tr by (simp add: numeral_3_eq_3)
  with codes show ?thesis
    by simp
qed

section \<open>Properties of the dispatcher\<close>

lemma collect_lists:
  "discovered_urls (collect fs s) = discovered_urls s @ concat (map results_of fs)
   \<and> printed_errors (collect fs s) = printed_errors s @ concat (map errors_of fs)"
  by (induction fs s rule: collect.induct) (simp_all add: results_of_def errors_of_def)

lemma mset_concat_map:
  "mset (concat (map f xs)) = \<Sum>\<^sub># (image_mset (\<lambda>x. mset (f x)) (mset xs))"
  by (induction xs) simp_all

lemma mset_concat_map_perm:
  "mset xs = mset ys \<Longrightarrow> mset (concat (map f xs)) = mset (concat (map f ys))"
  by (simp add: mset_concat_map)

lemma submit_all_hosts: "map (fst \<circ> snd) (submit_all task domains) = domains"
proof -
  have "(fst \<circ> snd) \<circ> (\<lambda>(i, d). (i, d, task i d)) = snd"
    by (auto simp: fun_eq_iff)
  then show ?thesis
    by (simp add: submit_all_def)
qed

lemma submit_all_nth:
  "i < length domains \<Longrightarrow> submit_all task domains ! i = (i, domains ! i, task i (domains ! i))"
  by (simp add: submit_all_def nth_enumerate_eq)

text \<open>
  C6. Whatever the tasks come to, and in whatever order they finish: one future is
  submitted per host of the list, in its order; \<open>discovered_urls\<close> grows by exactly the
  results of the tasks that returned, and one line is printed for each task that raised,
  with its host. So a host whose task raised adds no result and is reported, the results
  of every other host are there, and \<open>probe_all_domains\<close> returns (the model has no
  exception left to raise: every \<open>Exception\<close> of a task is caught in the loop).
\<close>

theorem probe_all_domains_isolates:
  assumes "mset (as_completed (submit_all task domains)) = mset (submit_all task domains)"
  shows "length (submit_all task domains) = length domains
     \<and> map (fst \<circ> snd) (submit_all task domains) = domains
     \<and> mset (discovered_urls (probe_all_domains as_completed task domains s))
         = mset (discovered_urls s) + mset (concat (map results_of (submit_all task domains)))
     \<and> mset (printed_errors (probe_all_domains as_completed task domains s))
         = mset (printed_errors s) + mset (concat (map errors_of (submit_all task domains)))
     \<and> (\<forall>i<length domains.
          case task i (domains ! i) of
            Inr results \<Rightarrow>
              set results \<subseteq> set (discovered_urls (probe_all_domains as_completed task domains s))
          | Inl e \<Rightarrow>
              (domains ! i, e) \<in> set (printed_errors (probe_all_domains as_completed task domains s)))"
proof -
  let ?fs = "submit_all task domains"
  let ?final = "probe_all_domains as_completed task domains s"
  have len: "length ?fs = length domains"
    by (simp add: submit_all_def)
  have d: "mset (discovered_urls ?final) = mset (discovered_urls s) + mset (concat (map results_of ?fs))"
    using collect_lists[of "as_completed ?fs" s] mset_concat_map_perm[OF assms, of results_of]
    by (simp add: probe_all_domains_def)
  have e: "mset (printed_errors ?final) = mset (printed_errors s) + mset (concat (map errors_of ?fs))"
    using collect_lists[of "as_completed ?fs" s] mset_concat_map_perm[OF assms, of errors_of]
    by (simp add: probe_all_domains_def)
  have each: "case task i (domains ! i) of
            Inr results \<Rightarrow> set results \<subseteq> set (discovered_urls ?final)
          | Inl e \<Rightarrow> (domains ! i, e) \<in> set (printed_errors ?final)" if i: "i < length domains" for i
  proof -
    have mem: "(i, domains ! i, task i (domains ! i)) \<in> set ?fs"
      using i len submit_all_nth[OF i, of task] by (metis nth_mem)
    show ?thesis
    proof (cases "task i (domains ! i)")
      case (Inl err)
      then have "(domains ! i, err) \<in> set (concat (map errors_of ?fs))"
        using mem by (force simp: errors_of_def)
      then have "(domains ! i, err) \<in># mset (printed_errors ?final)"
        unfolding e by simp
      then show ?thesis
        by (simp add: Inl)
    next
      case (Inr results)
      then have "set results \<subseteq> set (concat (map results_of ?fs))"
        using mem by (force simp: results_of_def)
      then have "set results \<subseteq> set_mset (mset (discovered_urls ?final))"
        unfolding d by auto
      then show ?thesis
        by (simp add: Inr)
    qed
  qed
  show ?thesis
    using len submit_all_hosts d e each by blast
qed

theorem probe_all_domains_isolates_witness:
  "mset (rev (submit_all example_task example_hosts)) = mset (submit_all example_task example_hosts)
   \<and> map (fst \<circ> snd) (submit_all example_task example_hosts) = example_hosts
   \<and> map status_code (discovered_urls (probe_all_domains rev example_task example_hosts
         \<lparr> discovered_urls = [], printed_errors = [] \<rparr>)) = [404, 200]
   \<and> printed_errors (probe_all_domains rev example_task example_hosts
         \<lparr> discovered_urls = [], printed_errors = [] \<rparr>) = [(lit ''b.cu'', lit ''boom'')]
   \<and> mset (printed_errors (probe_all_domains rev example_task example_hosts
         \<lparr> discovered_urls = [], printed_errors = [] \<rparr>))
       = mset [] + mset (concat (map errors_of (submit_all example_task example_hosts)))"
proof -
  let ?s = "\<lparr> discovered_urls = [], printed_errors = [] \<rparr>"
  have perm: "mset (rev (submit_all example_task example_hosts))
                = mset (submit_all example_task example_hosts)"
    by simp
  have "map status_code (discovered_urls (probe_all_domains rev example_task example_hosts ?s))
          = [404, 200]"
    by (simp add: probe_all_domains_def submit_all_def example_task_def example_hosts_def run_simps)
  moreover have "printed_errors (probe_all_domains rev example_task example_hosts ?s)
          = [(lit ''b.cu'', lit ''boom'')]"
    by (simp add: probe_all_domains_def submit_all_def example_task_def example_hosts_def run_simps)
  ultimately show ?thesis
    using perm probe_all_domains_isolates [of rev example_task example_hosts ?s] by simp
qed

section \<open>Properties of the summary\<close>

lemma count_key_apply:
  "count_key d k k' = (if k' = k then Some ((case d k of None \<Rightarrow> 0 | Some n \<Rightarrow> n) + 1) else d k')"
  by (simp add: count_key_def Let_def split: option.splits)

lemma count_loop_maps:
  "fst (count_loop rs (dm, sm)) h =
     (if count_list (map domain rs) h = 0 then dm h
      else Some ((case dm h of None \<Rightarrow> 0 | Some n \<Rightarrow> n) + count_list (map domain rs) h))
   \<and> snd (count_loop rs (dm, sm)) c =
     (if count_list (map status_code rs) c = 0 then sm c
      else Some ((case sm c of None \<Rightarrow> 0 | Some n \<Rightarrow> n) + count_list (map status_code rs) c))"
proof (induction rs arbitrary: dm sm)
  case Nil
  show ?case by simp
next
  case (Cons r rs)
  show ?case
    unfolding count_loop.simps
    by (simp add: Cons.IH count_key_apply)
qed

lemma check_url_domain:
  "check_url E u log = (Some r, log') \<Longrightarrow> domain r = netloc E (final_url r)"
proof (induction E u log rule: check_url.induct)
  case (1 E u log)
  show ?case
  proof (cases "http_get E log u")
    case (Response resp)
    then show ?thesis
      using "1.prems" by (subst (asm) check_url.simps) auto
  next
    case SSLError
    then show ?thesis
      using "1.prems" "1.IH" by (subst (asm) check_url.simps) (auto split: if_splits)
  next
    case Other_Exception
    then show ?thesis
      using "1.prems" by (subst (asm) check_url.simps) auto
  qed
qed

text \<open>
  C7, as amended. On an empty collection \<open>generate_summary_report\<close> returns at once and
  builds no mapping. On a collection that is not empty it builds \<open>host_counts\<close>, which
  maps each \<open>domain\<close> field occurring in the results to the number of results with it, and
  \<open>status_counts\<close>, which does the same for the status codes; neither has another key.
  The \<open>domain\<close> field of a result of \<open>check_url\<close> is the network location of its final
  URL, the URL after redirects, whatever host was asked.
\<close>

theorem generate_summary_report_counts:
  "generate_summary_report [] = None
   \<and> (discovered \<noteq> [] \<longrightarrow>
        (\<exists>host_counts status_counts.
           generate_summary_report discovered = Some (host_counts, status_counts)
           \<and> (\<forall>h. host_counts h =
                 (if count_list (map domain discovered) h = 0 then None
                  else Some (count_list (map domain discovered) h)))
           \<and> (\<forall>c. status_counts c =
                 (if count_list (map status_code discovered) c = 0 then None
                  else Some (count_list (map status_code discovered) c)))))
   \<and> (check_url E u log = (Some r, log') \<longrightarrow> domain r = netloc E (final_url r))"
proof -
  obtain hc sc where loop: "count_loop discovered (Map.empty, Map.empty) = (hc, sc)"
    by force
  have hc: "hc h = (if count_list (map domain discovered) h = 0 then None
                    else Some (count_list (map domain discovered) h))" for h
    using count_loop_maps[of discovered Map.empty Map.empty h] by (simp add: loop)
  have sc: "sc c = (if count_list (map status_code discovered) c = 0 then None
                    else Some (count_list (map status_code discovered) c))" for c
    using count_loop_maps[of discovered Map.empty Map.empty _ c] by (simp add: loop)
  have "generate_summary_report discovered = Some (hc, sc)" if "discovered \<noteq> []"
    using that by (simp add: generate_summary_report_def loop)
  moreover have "generate_summary_report [] = None"
    by (simp add: generate_summary_report_def)
  ultimately show ?thesis
    using hc sc check_url_domain[of E u log r log'] by blast
qed

theorem generate_summary_report_counts_witness:
  "probe_domain site_redirect (lit ''a.cu'') \<noteq> []
   \<and> (\<exists>host_counts status_counts.
         generate_summary_report (probe_domain site_redirect (lit ''a.cu''))
           = Some (host_counts, status_counts)
         \<and> host_counts (lit ''portal.b.cu'') = Some 1 \<and> host_counts (lit ''a.cu'') = None
         \<and> status_counts 200 = Some 1 \<and> status_counts 404 = None)
   \<and> (\<exists>r log'. check_url site_redirect (lit ''https://a.cu/'') [] = (Some r, log')
         \<and> domain r = netloc site_redirect (final_url r) \<and> domain r = lit ''portal.b.cu'')"
proof -
  let ?found = "probe_domain site_redirect (lit ''a.cu'')"
  have found: "?found \<noteq> []"
    by (simp add: run_simps)
  have doms: "map domain ?found = [lit ''portal.b.cu'']"
    and codes: "map status_code ?found = [200]"
    by (simp_all add: run_simps)
  obtain r log' where c: "check_url site_redirect (lit ''https://a.cu/'') [] = (Some r, log')"
    and d: "domain r = lit ''portal.b.cu''"
    by (simp add: run_simps)
  note inst = generate_summary_report_counts [of ?found site_redirect "lit ''https://a.cu/''" "[]" r log']
  from inst found obtain hc sc where
    s: "generate_summary_report ?found = Some (hc, sc)"
    and hc: "\<And>h. hc h = (if count_list (map domain ?found) h = 0 then None
                         else Some (count_list (map domain ?found) h))"
    and sc: "\<And>c. sc c = (if count_list (map status_code ?found) c = 0 then None
                         else Some (count_list (map status_code ?found) c))"
    by blast
  have "hc (lit ''portal.b.cu'') = Some 1" "hc (lit ''a.cu'') = None"
    unfolding hc doms by (simp_all add: lit_def)
  moreover have "sc 200 = Some 1" "sc 404 = None"
    unfolding sc codes by simp_all
  moreover have "domain r = netloc site_redirect (final_url r)"
    using inst c by blast
  ultimately show ?thesis
    using found s c d by blast
qed

theorem generate_summary_report_empty:
  "generate_summary_report [] = None
   \<and> generate_summary_report [] \<noteq> Some (Map.empty, Map.empty)"
  by (simp add: generate_summary_report_def)

section \<open>Properties of the host list\<close>

lemmas str_simps = clean_domain_def Let_def example_lower_def str_startswith_def
  str_strip_def isspace_def lit_def

lemma str_split_not_Nil: "str_split s sep \<noteq> []"
  by (induction s) (auto split: list.splits)

lemma hd_str_split: "hd (str_split s sep) = takeWhile (\<lambda>c. c \<noteq> sep) s"
  using str_split_not_Nil by (induction s) (auto split: list.splits)

lemma takeWhile_all: "x \<notin> set s \<Longrightarrow> takeWhile (\<lambda>c. c \<noteq> x) s = s"
  by (induction s) auto

lemma takeWhile_twice: "takeWhile P (takeWhile Q xs) = takeWhile (\<lambda>x. Q x \<and> P x) xs"
  by (induction xs) auto

lemma cut_port: "(if x \<in> set d then takeWhile (\<lambda>c. c \<noteq> x) d else d) = takeWhile (\<lambda>c. c \<noteq> x) d"
  by (simp add: takeWhile_all)

text \<open>
  \<open>clean_domain\<close> in one line: the four cuts together keep the text before the first
  \<open>/\<close>, \<open>?\<close>, \<open>#\<close> or \<open>:\<close>.
\<close>

lemma clean_domain_eq:
  "clean_domain lower s =
     (let d = str_strip s;
          d = (if str_startswith d (lit ''http://'') then drop 7 d
               else if str_startswith d (lit ''https://'') then drop 8 d
               else d);
          d = (if str_startswith d (lit ''www.'') then drop 4 d else d)
      in lower (takeWhile (\<lambda>c. c \<notin> set (lit ''/?#:'')) d))"
proof -
  have "(\<lambda>c::nat. ((c \<noteq> of_char CHR ''/'' \<and> c \<noteq> of_char CHR ''?'') \<and> c \<noteq> of_char CHR ''#'')
                  \<and> c \<noteq> of_char CHR '':'')
        = (\<lambda>c. c \<notin> set (lit ''/?#:''))"
    by (auto simp: lit_def)
  then show ?thesis
    unfolding clean_domain_def Let_def hd_str_split cut_port takeWhile_twice by simp
qed

lemma clean_domain_free:
  assumes "lower_casing lower" and "x \<in> set (lit ''/?#:'')"
  shows "x \<notin> set (clean_domain lower s)"
proof
  assume "x \<in> set (clean_domain lower s)"
  then obtain d where "x \<in> set (lower (takeWhile (\<lambda>c. c \<notin> set (lit ''/?#:'')) d))"
    unfolding clean_domain_eq Let_def by blast
  then have "x \<in> set (takeWhile (\<lambda>c. c \<notin> set (lit ''/?#:'')) d)"
    using assms unfolding lower_casing_def by blast
  then show False
    using assms(2) by (auto dest: set_takeWhileD)
qed

lemma clean_domain_lower:
  "lower_casing lower \<Longrightarrow> lower (clean_domain lower s) = clean_domain lower s"
  unfolding clean_domain_def Let_def lower_casing_def by blast

lemma no_scheme:
  assumes "of_char CHR '':'' \<notin> set t"
  shows "\<not> str_startswith t (lit ''http://'') \<and> \<not> str_startswith t (lit ''https://'')"
proof -
  have "of_char CHR '':'' \<in> set (lit ''http://'')" "of_char CHR '':'' \<in> set (lit ''https://'')"
    by (simp_all add: lit_def)
  then show ?thesis
    using assms str_startswith_set by blast
qed

lemma clean_domain_fixed:
  assumes "\<forall>x\<in>set (lit ''/?#:''). x \<notin> set t" "lower t = t" "str_strip t = t"
    "\<not> str_startswith t (lit ''www.'')"
  shows "clean_domain lower t = t"
proof -
  have "of_char CHR '':'' \<notin> set t"
    using assms(1) by (simp add: lit_def)
  then have "\<not> str_startswith t (lit ''http://'') \<and> \<not> str_startswith t (lit ''https://'')"
    by (rule no_scheme)
  moreover have tw: "takeWhile (\<lambda>c. c \<notin> set (lit ''/?#:'')) t = t"
    using assms(1) by (intro takeWhile_eq_all_conv[THEN iffD2]) blast
  ultimately show ?thesis
    unfolding clean_domain_eq Let_def assms(3) using assms(4) by (simp add: tw assms(2))
qed


text \<open>The lower-casing of the examples is a lower-casing in the sense of \<open>lower_casing\<close>.\<close>

lemma set_example_lower: "x < 65 \<Longrightarrow> x \<in> set (example_lower s) \<longleftrightarrow> x \<in> set s"
  by (induction s) (auto simp: example_lower_def)

lemma example_lower_idem: "example_lower (example_lower s) = example_lower s"
proof (induction s)
  case Nil
  show ?case by (simp add: example_lower_def)
next
  case (Cons c s)
  have "example_lower (c # s) = example_lower_cp c @ example_lower s"
    by (simp add: example_lower_def)
  moreover have "example_lower (example_lower_cp c) = example_lower_cp c"
    unfolding example_lower_def by simp
  moreover have "example_lower (a @ b) = example_lower a @ example_lower b" for a b
    by (simp add: example_lower_def)
  ultimately show ?case
    using Cons.IH by (simp del: example_lower_cp.simps)
qed

lemma lower_casing_example: "lower_casing example_lower"
  unfolding lower_casing_def
  by (auto simp: example_lower_idem set_example_lower lit_def)

text \<open>
  C10, as amended. Every output of \<open>clean_domain\<close> is left as it is by lower-casing and
  has none of \<open>/\<close>, \<open>?\<close>, \<open>#\<close>, \<open>:\<close>, so it starts with no scheme. It is a fixed point of
  \<open>clean_domain\<close> whenever it does not start with \<open>www.\<close> and has no white space at
  either end. This holds for every lower-casing in the sense of \<open>lower_casing\<close>.
\<close>

theorem clean_domain_fixed_point:
  assumes "lower_casing lower"
  shows "lower (clean_domain lower s) = clean_domain lower s
   \<and> of_char CHR ''/'' \<notin> set (clean_domain lower s) \<and> of_char CHR ''?'' \<notin> set (clean_domain lower s)
   \<and> of_char CHR ''#'' \<notin> set (clean_domain lower s) \<and> of_char CHR '':'' \<notin> set (clean_domain lower s)
   \<and> \<not> str_startswith (clean_domain lower s) (lit ''http://'')
   \<and> \<not> str_startswith (clean_domain lower s) (lit ''https://'')
   \<and> (\<not> str_startswith (clean_domain lower s) (lit ''www.'')
        \<and> str_strip (clean_domain lower s) = clean_domain lower s
        \<longrightarrow> clean_domain lower (clean_domain lower s) = clean_domain lower s)"
proof -
  let ?t = "clean_domain lower s"
  have free: "\<forall>x\<in>set (lit ''/?#:''). x \<notin> set ?t"
    using clean_domain_free[OF assms] by blast
  then have four: "of_char CHR ''/'' \<notin> set ?t" "of_char CHR ''?'' \<notin> set ?t"
    "of_char CHR ''#'' \<notin> set ?t" "of_char CHR '':'' \<notin> set ?t"
    by (simp_all add: lit_def)
  have low: "lower ?t = ?t"
    using assms by (rule clean_domain_lower)
  have "clean_domain lower ?t = ?t"
    if "\<not> str_startswith ?t (lit ''www.'')" "str_strip ?t = ?t"
    using free low that by (intro clean_domain_fixed) simp_all
  then show ?thesis
    using four low no_scheme[OF four(4)] by blast
qed

theorem clean_domain_fixed_point_witness:
  "lower_casing example_lower
   \<and> clean_domain example_lower (lit ''https://www.MinSap.gob.cu:8080/Inicio?x=1#top'')
       = lit ''minsap.gob.cu''
   \<and> \<not> str_startswith (lit ''minsap.gob.cu'') (lit ''www.'')
   \<and> str_strip (lit ''minsap.gob.cu'') = lit ''minsap.gob.cu''
   \<and> clean_domain example_lower (lit ''minsap.gob.cu'') = lit ''minsap.gob.cu''"
proof -
  have out: "clean_domain example_lower (lit ''https://www.MinSap.gob.cu:8080/Inicio?x=1#top'')
               = lit ''minsap.gob.cu''"
    by (simp add: str_simps)
  have www: "\<not> str_startswith (lit ''minsap.gob.cu'') (lit ''www.'')"
    and strip: "str_strip (lit ''minsap.gob.cu'') = lit ''minsap.gob.cu''"
    by (simp_all add: str_simps)
  show ?thesis
    using clean_domain_fixed_point [OF lower_casing_example,
        of "lit ''https://www.MinSap.gob.cu:8080/Inicio?x=1#top''"]
      www strip lower_casing_example unfolding out by blast
qed

text \<open>
  The claim as stated fails where the cleaned text still starts with \<open>www.\<close> (the prefix
  is removed once, and looked for before lower-casing) or ends in white space (the text
  is stripped before it is cut).
\<close>

theorem clean_domain_not_idempotent:
  "clean_domain example_lower (lit ''www.www.gob.cu'') = lit ''www.gob.cu''
   \<and> clean_domain example_lower (clean_domain example_lower (lit ''www.www.gob.cu'')) = lit ''gob.cu''
   \<and> clean_domain example_lower (clean_domain example_lower (lit ''www.www.gob.cu''))
       \<noteq> clean_domain example_lower (lit ''www.www.gob.cu'')
   \<and> clean_domain example_lower (clean_domain example_lower (lit ''WWW.cubagob.cu''))
       \<noteq> clean_domain example_lower (lit ''WWW.cubagob.cu'')
   \<and> clean_domain example_lower (clean_domain example_lower (lit ''a.cu /x''))
       \<noteq> clean_domain example_lower (lit ''a.cu /x'')"
  by (simp add: str_simps)

lemma host_ok_clean_domain:
  "lower_casing lower \<Longrightarrow> clean_domain lower v \<noteq> [] \<Longrightarrow> host_ok lower (clean_domain lower v)"
  using clean_domain_free[of lower _ v] clean_domain_lower[of lower v]
  by (simp add: host_ok_def lit_def)

lemma find_domain_column_cell:
  "find_domain_column row cols = Some x \<Longrightarrow> \<exists>key v. (key, Some v) \<in> set row \<and> x = str_strip v"
proof (induction cols)
  case Nil
  then show ?case by simp
next
  case (Cons col cols)
  show ?case
  proof (cases "map_of row (Some col)")
    case None
    then show ?thesis using Cons by simp
  next
    case (Some cell)
    then have mem: "(Some col, cell) \<in> set row"
      by (rule map_of_SomeD)
    show ?thesis
    proof (cases cell)
      case None
      then show ?thesis using Cons Some by simp
    next
      case (Some v)
      show ?thesis
      proof (cases "v \<noteq> [] \<and> str_strip v \<noteq> []")
        case True
        then have "x = str_strip v"
          using Cons.prems \<open>map_of row (Some col) = Some cell\<close> Some by simp
        then show ?thesis
          using mem Some by blast
      next
        case False
        then show ?thesis
          using Cons \<open>map_of row (Some col) = Some cell\<close> Some by auto
      qed
    qed
  qed
qed

lemma scan_row_inv:
  assumes low: "lower_casing lower"
    and ds: "distinct ds"
      "\<forall>h\<in>set ds. host_ok lower h \<and> from_cell lower R h
          \<and> (of_char CHR ''.'' \<in> set h \<or> from_domain_column lower R h)"
    and row: "row \<in> set R"
  shows "set items \<subseteq> set row \<Longrightarrow>
         distinct (scan_row lower items ds)
         \<and> (\<forall>h\<in>set (scan_row lower items ds). host_ok lower h \<and> from_cell lower R h
               \<and> (of_char CHR ''.'' \<in> set h \<or> from_domain_column lower R h))"
proof (induction items)
  case Nil
  show ?case using ds by simp
next
  case (Cons kv items)
  obtain k v where kv: "kv = (k, v)"
    by (cases kv)
  have sub: "set items \<subseteq> set row" and mem: "(k, v) \<in> set row"
    using Cons.prems kv by simp_all
  show ?case
  proof (cases v)
    case None
    then show ?thesis using Cons.IH[OF sub] kv by simp
  next
    case (Some x)
    define pd where "pd = clean_domain lower (str_strip x)"
    have ok: "host_ok lower pd" if "of_char CHR ''.'' \<in> set pd"
    proof -
      from that have "pd \<noteq> []" by auto
      then show ?thesis
        unfolding pd_def using low host_ok_clean_domain by blast
    qed
    have cell: "from_cell lower R pd"
      unfolding from_cell_def pd_def using row mem Some
      by (intro bexI[of _ row] bexI[of _ "(k, v)"]) simp_all
    have step: "scan_row lower (kv # items) ds = scan_row lower items ds
                \<or> scan_row lower (kv # items) ds = ds
                \<or> (scan_row lower (kv # items) ds = ds @ [pd] \<and> of_char CHR ''.'' \<in> set pd
                    \<and> pd \<notin> set ds)"
      by (simp add: kv Some Let_def pd_def)
    then show ?thesis
    proof (elim disjE)
      assume "scan_row lower (kv # items) ds = scan_row lower items ds"
      then show ?thesis using Cons.IH[OF sub] by simp
    next
      assume "scan_row lower (kv # items) ds = ds"
      then show ?thesis using ds by simp
    next
      assume a: "scan_row lower (kv # items) ds = ds @ [pd] \<and> of_char CHR ''.'' \<in> set pd
                   \<and> pd \<notin> set ds"
      then have "host_ok lower pd" using ok by blast
      then show ?thesis using a ds cell by simp
    qed
  qed
qed

lemma load_rows_inv:
  assumes low: "lower_casing lower"
  shows "set rows \<subseteq> set R \<Longrightarrow> distinct ds \<Longrightarrow>
    \<forall>h\<in>set ds. host_ok lower h \<and> from_cell lower R h
          \<and> (of_char CHR ''.'' \<in> set h \<or> from_domain_column lower R h) \<Longrightarrow>
    distinct (load_rows lower rows ds)
    \<and> (\<forall>h\<in>set (load_rows lower rows ds). host_ok lower h \<and> from_cell lower R h
               \<and> (of_char CHR ''.'' \<in> set h \<or> from_domain_column lower R h))"
proof (induction rows arbitrary: ds)
  case Nil
  then show ?case by simp
next
  case (Cons row rows)
  have sub: "set rows \<subseteq> set R" and row: "row \<in> set R"
    using Cons.prems(1) by simp_all
  show ?case
  proof (cases "find_domain_column row domain_columns")
    case None
    have inv: "distinct (scan_row lower row ds) \<and> (\<forall>h\<in>set (scan_row lower row ds).
            host_ok lower h \<and> from_cell lower R h
            \<and> (of_char CHR ''.'' \<in> set h \<or> from_domain_column lower R h))"
      using scan_row_inv[OF low Cons.prems(2,3) row, of row] by simp
    have step: "load_rows lower (row # rows) ds = load_rows lower rows (scan_row lower row ds)"
      by (simp add: None)
    show ?thesis
      unfolding step by (rule Cons.IH[OF sub conjunct1[OF inv] conjunct2[OF inv]])
  next
    case (Some v)
    show ?thesis
    proof (cases "clean_domain lower v \<noteq> [] \<and> clean_domain lower v \<notin> set ds")
      case True
      have "from_domain_column lower R (clean_domain lower v)"
        unfolding from_domain_column_def using row Some by (intro bexI[of _ row]) simp_all
      moreover have "host_ok lower (clean_domain lower v)"
        using True low host_ok_clean_domain by blast
      moreover have "from_cell lower R (clean_domain lower v)"
      proof -
        obtain key c where "(key, Some c) \<in> set row" "v = str_strip c"
          using find_domain_column_cell[OF Some] by blast
        then show ?thesis
          unfolding from_cell_def using row
          by (intro bexI[of _ row] bexI[of _ "(key, Some c)"]) simp_all
      qed
      ultimately have inv: "distinct (ds @ [clean_domain lower v])
          \<and> (\<forall>h\<in>set (ds @ [clean_domain lower v]). host_ok lower h \<and> from_cell lower R h
            \<and> (of_char CHR ''.'' \<in> set h \<or> from_domain_column lower R h))"
        using True Cons.prems(2,3) by simp
      have step: "load_rows lower (row # rows) ds = load_rows lower rows (ds @ [clean_domain lower v])"
        using True by (simp add: Some Let_def)
      show ?thesis
        unfolding step by (rule Cons.IH[OF sub conjunct1[OF inv] conjunct2[OF inv]])
    next
      case False
      then have step: "load_rows lower (row # rows) ds = load_rows lower rows ds"
        by (auto simp: Some Let_def)
      show ?thesis
        unfolding step by (rule Cons.IH[OF sub Cons.prems(2,3)])
    qed
  qed
qed

text \<open>
  The URLs of the prober hold \<open>https://\<close> once: a loaded host has no \<open>:\<close>, and neither
  has a path of the list.
\<close>

lemma candidate_url_once:
  assumes "lower_casing lower" "h \<in> set (load_domains lower f)" "p \<in> set paths"
  shows "\<forall>n. \<not> str_startswith (drop n (h @ p)) (lit ''https://'')"
proof -
  have "host_ok lower h"
  proof (cases f)
    case (Rows rows)
    then show ?thesis
      using load_rows_inv[OF assms(1), of rows rows "[]"] assms(2) by simp
  qed (use assms(2) in simp_all)
  then have "of_char CHR '':'' \<notin> set (h @ p)"
    using paths_no_colon assms(3) by (simp add: host_ok_def)
  then show ?thesis
    by (rule no_colon_no_https)
qed





end
